theory Spec2Isabelle
  imports Main "HOL-Library.Multiset"
begin

section \<open>extract\_tiff\_from\_pdf: pages of a document to numbered TIFF files\<close>

text \<open>
  The development follows \<^verbatim>\<open>src/extract_tiff_from_pdf/main.py\<close>. The two functions
  of interest are \<^verbatim>\<open>extract_tiff_from_pdf\<close> (the dispatcher) and
  \<^verbatim>\<open>_convert_page_to_image\<close> (the page converter, one call per page, run on a
  thread pool). Python exceptions are values of type \<open>error\<close>, the file system is a
  map from paths to nodes, and every call that leaves the function (file system, PDF
  library, image library, executor, standard output) is recorded as an \<open>event\<close>.
\<close>

subsection \<open>Exceptions\<close>

datatype exc_class =
    ValueError | IndexError
  | FileExistsError | FileNotFoundError | IsADirectoryError | NotADirectoryError
  | LibraryError

datatype error = Error exc_class string

fun class_of :: "error \<Rightarrow> exc_class" where
  "class_of (Error c m) = c"

subsection \<open>Decimal formatting: the format specification \<open>04\<close>\<close>

definition digit_char :: "nat \<Rightarrow> char" where
  "digit_char d = char_of (48 + d)"

fun dec :: "nat \<Rightarrow> string" where
  "dec n = (if n < 10 then [digit_char n] else dec (n div 10) @ [digit_char (n mod 10)])"

declare dec.simps [simp del]

text \<open>Python's \<^verbatim>\<open>f"{n:04}"\<close> for a non-negative integer: the decimal digits, padded on
  the left with zeros up to width 4; a longer number is never cut.\<close>

definition format_04 :: "nat \<Rightarrow> string" where
  "format_04 n = replicate (4 - length (dec n)) (CHR ''0'') @ dec n"

text \<open>\<^verbatim>\<open>f"page_{page_number+1:04}.tiff"\<close> (line 93).\<close>

definition page_filename :: "nat \<Rightarrow> string" where
  "page_filename page_number = ''page_'' @ format_04 (page_number + 1) @ ''.tiff''"

text \<open>Reading a digit string back; used to state that no digit is lost.\<close>

definition digit_val :: "char \<Rightarrow> nat" where
  "digit_val c = of_char c - 48"

definition is_digit :: "char \<Rightarrow> bool" where
  "is_digit c = (48 \<le> (of_char c :: nat) \<and> (of_char c :: nat) \<le> 57)"

definition decimal_value :: "string \<Rightarrow> nat" where
  "decimal_value s = foldl (\<lambda>acc c. 10 * acc + digit_val c) 0 s"

subsection \<open>Paths and the file system\<close>

type_synonym path = string
type_synonym bytes = "nat list"

datatype node = File bytes | Dir

type_synonym filesystem = "path \<Rightarrow> node option"

text \<open>\<^verbatim>\<open>os.path.join(a, b)\<close> on POSIX.\<close>

definition path_join :: "path \<Rightarrow> path \<Rightarrow> path" where
  "path_join a b =
     (if b \<noteq> [] \<and> hd b = CHR ''/'' then b
      else if a = [] \<or> last a = CHR ''/'' then a @ b
      else a @ ''/'' @ b)"

text \<open>\<^verbatim>\<open>os.path.isfile(p)\<close>.\<close>

definition isfile :: "filesystem \<Rightarrow> path \<Rightarrow> bool" where
  "isfile fsys p = (case fsys p of Some (File b) \<Rightarrow> True | _ \<Rightarrow> False)"

text \<open>\<^verbatim>\<open>open(p, 'rb').read()\<close>.\<close>

definition read_file :: "filesystem \<Rightarrow> path \<Rightarrow> error + bytes" where
  "read_file fsys p =
     (case fsys p of
        Some (File b) \<Rightarrow> Inr b
      | Some Dir \<Rightarrow> Inl (Error IsADirectoryError p)
      | None \<Rightarrow> Inl (Error FileNotFoundError p))"

text \<open>Opening \<open>p\<close> for writing and storing \<open>b\<close>: an existing file is replaced, a
  directory cannot be opened.\<close>

definition write_file :: "filesystem \<Rightarrow> path \<Rightarrow> bytes \<Rightarrow> error + filesystem" where
  "write_file fsys p b =
     (case fsys p of
        Some Dir \<Rightarrow> Inl (Error IsADirectoryError p)
      | _ \<Rightarrow> Inr (fsys(p \<mapsto> File b)))"

text \<open>The directories above \<open>p\<close>: for \<^verbatim>\<open>a/b/c\<close> these are \<^verbatim>\<open>a\<close> and \<^verbatim>\<open>a/b\<close>.\<close>

definition ancestors :: "path \<Rightarrow> path list" where
  "ancestors p =
     filter (\<lambda>q. q \<noteq> [] \<and> last q \<noteq> CHR ''/'')
       (map (\<lambda>i. take i p) (filter (\<lambda>i. p ! i = CHR ''/'') [0..<length p]))"

fun mkdir_all :: "path list \<Rightarrow> filesystem \<Rightarrow> filesystem" where
  "mkdir_all [] fsys = fsys"
| "mkdir_all (q # qs) fsys =
     mkdir_all qs (case fsys q of None \<Rightarrow> fsys(q \<mapsto> Dir) | Some v \<Rightarrow> fsys)"

text \<open>\<^verbatim>\<open>os.makedirs(p, exist_ok=exist_ok)\<close>: creates \<open>p\<close> and the missing directories
  above it. An existing directory at \<open>p\<close> is an error only without \<open>exist_ok\<close>; an
  existing regular file at \<open>p\<close> always is.\<close>

definition makedirs :: "path \<Rightarrow> bool \<Rightarrow> filesystem \<Rightarrow> error + filesystem" where
  "makedirs p exist_ok fsys =
     (case fsys p of
        Some Dir \<Rightarrow> if exist_ok then Inr fsys else Inl (Error FileExistsError p)
      | Some (File b) \<Rightarrow> Inl (Error FileExistsError p)
      | None \<Rightarrow>
          if p = [] then Inl (Error FileNotFoundError p)
          else if list_ex (isfile fsys) (ancestors p) then Inl (Error NotADirectoryError p)
          else Inr (mkdir_all (ancestors p @ [p]) fsys))"

subsection \<open>Collaborators and events\<close>

text \<open>The arguments of \<^verbatim>\<open>convert_from_bytes\<close> (lines 83 to 89) and of
  \<^verbatim>\<open>image.save\<close> (line 94).\<close>

record render_request =
  dpi :: int
  first_page :: int
  last_page :: int
  grayscale :: bool

record save_request =
  image_path :: path
  image_format :: string
  dpi_xy :: "int \<times> int"

text \<open>The libraries the program calls are parameters: \<open>pdf_page_count\<close> stands for
  \<^verbatim>\<open>len(PdfReader(f).pages)\<close>, \<open>convert_from_bytes\<close> for the function of that name
  in pdf2image and \<open>encode\<close> for the encoder behind \<^verbatim>\<open>image.save\<close>. Each may fail.\<close>

record 'img collaborators =
  pdf_page_count :: "bytes \<Rightarrow> error + nat"
  convert_from_bytes :: "bytes \<Rightarrow> render_request \<Rightarrow> error + 'img list"
  encode :: "'img \<Rightarrow> string \<Rightarrow> int \<times> int \<Rightarrow> error + bytes"

datatype event =
    Isfile path
  | Open_read path
  | Makedirs path bool
  | Submit_task nat
  | Render render_request
  | Save save_request
  | Print string

text \<open>\<^verbatim>\<open>image.save(image_path, "TIFF", dpi=(resolution, resolution))\<close>: encode, then
  write the file.\<close>

definition save :: "'img collaborators \<Rightarrow> 'img \<Rightarrow> save_request \<Rightarrow> filesystem
    \<Rightarrow> error + filesystem" where
  "save env img req fsys =
     (case encode env img (image_format req) (dpi_xy req) of
        Inl e \<Rightarrow> Inl e
      | Inr b \<Rightarrow> write_file fsys (image_path req) b)"

subsection \<open>The page converter (lines 64 to 95)\<close>

text \<open>The path of the file for page \<open>n\<close> (\<^verbatim>\<open>image_path\<close>, line 93).\<close>

definition page_path :: "path \<Rightarrow> nat \<Rightarrow> path" where
  "page_path output_directory n = path_join output_directory (page_filename n)"

definition render_args :: "int \<Rightarrow> nat \<Rightarrow> render_request" where
  "render_args resolution page_number =
     \<lparr>dpi = resolution, first_page = int page_number + 1,
      last_page = int page_number + 1, grayscale = True\<rparr>"

definition save_args :: "int \<Rightarrow> path \<Rightarrow> nat \<Rightarrow> save_request" where
  "save_args resolution output_directory page_number =
     \<lparr>image_path = page_path output_directory page_number,
      image_format = ''TIFF'', dpi_xy = (resolution, resolution)\<rparr>"

definition saved_message :: "path \<Rightarrow> nat \<Rightarrow> string" where
  "saved_message output_directory page_number =
     ''Saved page '' @ dec (page_number + 1) @ '' as ''
       @ page_path output_directory page_number"

text \<open>The result is the outcome of the call, the file system after it and the events
  of the call in order. \<^verbatim>\<open>images[0]\<close> raises IndexError on an empty list.\<close>

definition convert_page_to_image ::
  "'img collaborators \<Rightarrow> bytes \<Rightarrow> int \<Rightarrow> path \<Rightarrow> nat \<Rightarrow> filesystem
    \<Rightarrow> (error + unit) \<times> filesystem \<times> event list" where
  "convert_page_to_image env raw_pdf_bytes resolution output_directory page_number fsys =
     (let rq = render_args resolution page_number in
      case convert_from_bytes env raw_pdf_bytes rq of
        Inl e \<Rightarrow> (Inl e, fsys, [Render rq])
      | Inr images \<Rightarrow>
          (case images of
             [] \<Rightarrow> (Inl (Error IndexError ''list index out of range''), fsys, [Render rq])
           | img # rest \<Rightarrow>
               (let sq = save_args resolution output_directory page_number in
                case save env img sq fsys of
                  Inl e \<Rightarrow> (Inl e, fsys, [Render rq, Save sq])
                | Inr fsys' \<Rightarrow>
                    (Inr (), fsys',
                     [Render rq, Save sq,
                      Print (saved_message output_directory page_number)]))))"

subsection \<open>The dispatcher (lines 10 to 62)\<close>

text \<open>Lines 32 to 47, which run before the thread pool exists: the checks of the
  arguments, the page count, the output directory and the document's bytes. The result
  is the page count and the bytes, or the exception raised, with the file system and
  the events up to there.\<close>

definition prologue ::
  "'img collaborators \<Rightarrow> path \<Rightarrow> path \<Rightarrow> int \<Rightarrow> filesystem
    \<Rightarrow> (error + nat \<times> bytes) \<times> filesystem \<times> event list" where
  "prologue env pdf_path output_directory resolution fsys =
     (if resolution \<le> 0 then
        (Inl (Error ValueError ''Resolution must be a positive integer''), fsys, [])
      else if \<not> isfile fsys pdf_path then
        (Inl (Error ValueError (''PDF file not found: '' @ pdf_path)), fsys,
         [Isfile pdf_path])
      else
        case read_file fsys pdf_path of
          Inl e \<Rightarrow> (Inl e, fsys, [Isfile pdf_path, Open_read pdf_path])
        | Inr content \<Rightarrow>
            (case pdf_page_count env content of
               Inl e \<Rightarrow> (Inl e, fsys, [Isfile pdf_path, Open_read pdf_path])
             | Inr page_total \<Rightarrow>
                 (case makedirs output_directory True fsys of
                    Inl e \<Rightarrow>
                      (Inl e, fsys,
                       [Isfile pdf_path, Open_read pdf_path,
                        Makedirs output_directory True])
                  | Inr fsys' \<Rightarrow>
                      (case read_file fsys' pdf_path of
                         Inl e \<Rightarrow>
                           (Inl e, fsys',
                            [Isfile pdf_path, Open_read pdf_path,
                             Makedirs output_directory True, Open_read pdf_path])
                       | Inr raw \<Rightarrow>
                           (Inr (page_total, raw), fsys',
                            [Isfile pdf_path, Open_read pdf_path,
                             Makedirs output_directory True, Open_read pdf_path])))))"

text \<open>\<^verbatim>\<open>ThreadPoolExecutor(max_workers=20)\<close> (line 50).\<close>

definition max_workers :: nat where
  "max_workers = 20"

text \<open>
  From line 50 on the call runs together with the worker threads of the executor, so
  the rest of the function is a transition system. A state holds the locals of the call
  (\<open>total_pages\<close>, \<open>raw_pdf_bytes\<close>, the loop counter \<open>next_page\<close>), the executor (the
  queue \<open>pending\<close> of submitted work, the tasks \<open>running\<close> on a worker thread, the
  \<open>finished\<close> futures with their outcomes in order of completion), the futures that
  \<^verbatim>\<open>as_completed\<close> has \<open>observed\<close> (yielded to the loop of line 60) and where the
  dispatcher stands: in the body of the \<^verbatim>\<open>with\<close> block, leaving the block (normally
  or with the exception raised by \<^verbatim>\<open>future.result()\<close>), or back at its caller.
\<close>

datatype phase = In_body | Exiting "error + unit" | Returned "error + unit"

record state =
  fs :: filesystem
  trace :: "event list"
  total_pages :: nat
  raw_pdf_bytes :: bytes
  next_page :: nat
  pending :: "nat list"
  running :: "nat list"
  finished :: "(nat \<times> (error + unit)) list"
  observed :: "nat list"
  phase :: phase

text \<open>
  The steps, one of which the scheduler picks at a time:
  \<^item> \<open>Submit\<close>: one turn of the loop of lines 53 to 57;
  \<^item> \<open>Start\<close>: a worker thread takes the oldest submitted task, if fewer than
    \<open>max_workers\<close> tasks are running;
  \<^item> \<open>Finish t\<close>: the call of the page converter for page \<open>t\<close> completes; its effects
    on the file system and its events take place here;
  \<^item> \<open>Yield t\<close>: after the submission loop, \<^verbatim>\<open>as_completed\<close> yields the finished
    future of page \<open>t\<close> and \<^verbatim>\<open>future.result()\<close> returns or raises (lines 60 to 62);
  \<^item> \<open>Leave_body\<close>: every future has been yielded and the loop of line 60 ends;
  \<^item> \<open>Return\<close>: the exit of the \<^verbatim>\<open>with\<close> block, \<^verbatim>\<open>shutdown(wait=True)\<close>, which
    returns once the queue is empty and no task is running; then the call returns or
    the exception reaches the caller.
  A step that is not possible in a state gives \<open>None\<close>.

  The executor is the standard library's, not code of this program; its steps follow
  its documented behaviour: work is queued in the order of submission, at most
  \<^verbatim>\<open>max_workers\<close> threads take work from the queue, \<^verbatim>\<open>as_completed\<close> yields every
  future once and only when it is done, and leaving the \<^verbatim>\<open>with\<close> block waits for the
  queued and running work, also when an exception leaves the block. The library has no
  step that drops queued work here, since the program never cancels a future. One call
  of the page converter is a single step; the calls write different files.
\<close>

datatype action = Submit | Start | Finish nat | Yield nat | Leave_body | Return

fun step :: "'img collaborators \<Rightarrow> path \<Rightarrow> int \<Rightarrow> action \<Rightarrow> state \<Rightarrow> state option" where
  "step env output_directory resolution Submit s =
     (if phase s = In_body \<and> next_page s < total_pages s then
        Some (s\<lparr>pending := pending s @ [next_page s],
                trace := trace s @ [Submit_task (next_page s)],
                next_page := next_page s + 1\<rparr>)
      else None)"
| "step env output_directory resolution Start s =
     (case pending s of
        [] \<Rightarrow> None
      | t # ts \<Rightarrow>
          if length (running s) < max_workers then
            Some (s\<lparr>pending := ts, running := running s @ [t]\<rparr>)
          else None)"
| "step env output_directory resolution (Finish t) s =
     (if t \<in> set (running s) then
        (case convert_page_to_image env (raw_pdf_bytes s) resolution output_directory t (fs s) of
           (r, fsys', evs) \<Rightarrow>
             Some (s\<lparr>running := remove1 t (running s),
                     finished := finished s @ [(t, r)],
                     fs := fsys',
                     trace := trace s @ evs\<rparr>))
      else None)"
| "step env output_directory resolution (Yield t) s =
     (if phase s = In_body \<and> next_page s = total_pages s \<and> t \<notin> set (observed s) then
        (case map_of (finished s) t of
           None \<Rightarrow> None
         | Some (Inl e) \<Rightarrow> Some (s\<lparr>observed := observed s @ [t], phase := Exiting (Inl e)\<rparr>)
         | Some (Inr u) \<Rightarrow> Some (s\<lparr>observed := observed s @ [t]\<rparr>))
      else None)"
| "step env output_directory resolution Leave_body s =
     (if phase s = In_body \<and> next_page s = total_pages s
         \<and> set [0..<total_pages s] \<subseteq> set (observed s) then
        Some (s\<lparr>phase := Exiting (Inr ())\<rparr>)
      else None)"
| "step env output_directory resolution Return s =
     (case phase s of
        Exiting r \<Rightarrow>
          if pending s = [] \<and> running s = [] then Some (s\<lparr>phase := Returned r\<rparr>) else None
      | _ \<Rightarrow> None)"

fun run :: "'img collaborators \<Rightarrow> path \<Rightarrow> int \<Rightarrow> action list \<Rightarrow> state \<Rightarrow> state option" where
  "run env output_directory resolution [] s = Some s"
| "run env output_directory resolution (a # acts) s =
     (case step env output_directory resolution a s of
        None \<Rightarrow> None
      | Some s' \<Rightarrow> run env output_directory resolution acts s')"

text \<open>The state at line 50. When the prologue raised, the call is over: no task exists
  and the exception is at the caller.\<close>

definition initial_state ::
  "'img collaborators \<Rightarrow> path \<Rightarrow> path \<Rightarrow> int \<Rightarrow> filesystem \<Rightarrow> state" where
  "initial_state env pdf_path output_directory resolution fsys =
     (case prologue env pdf_path output_directory resolution fsys of
        (Inl e, fsys', evs) \<Rightarrow>
          \<lparr>fs = fsys', trace = evs, total_pages = 0, raw_pdf_bytes = [], next_page = 0,
           pending = [], running = [], finished = [], observed = [],
           phase = Returned (Inl e)\<rparr>
      | (Inr (page_total, raw), fsys', evs) \<Rightarrow>
          \<lparr>fs = fsys', trace = evs, total_pages = page_total, raw_pdf_bytes = raw,
           next_page = 0, pending = [], running = [], finished = [], observed = [],
           phase = In_body\<rparr>)"

text \<open>The call \<^verbatim>\<open>extract_tiff_from_pdf(pdf_path, output_directory, resolution)\<close> on
  the file system \<open>fsys\<close>, under the scheduler's choices \<open>sched\<close>: the state reached, or
  \<open>None\<close> when \<open>sched\<close> asks for a step that is not possible. The call has returned
  when the phase of that state is \<open>Returned r\<close>; \<open>r\<close> is \<open>Inr ()\<close> for a normal return
  (the function returns no value) and \<open>Inl e\<close> for the exception \<open>e\<close>.\<close>

definition extract_tiff_from_pdf ::
  "'img collaborators \<Rightarrow> action list \<Rightarrow> path \<Rightarrow> path \<Rightarrow> int \<Rightarrow> filesystem \<Rightarrow> state option" where
  "extract_tiff_from_pdf env sched pdf_path output_directory resolution fsys =
     run env output_directory resolution sched
       (initial_state env pdf_path output_directory resolution fsys)"

text \<open>What the events say: the pages submitted, and the calls of
  \<^verbatim>\<open>convert_from_bytes\<close> and of \<^verbatim>\<open>image.save\<close>, in order.\<close>

fun submitted :: "event list \<Rightarrow> nat list" where
  "submitted [] = []"
| "submitted (Submit_task n # evs) = n # submitted evs"
| "submitted (ev # evs) = submitted evs"


fun save_calls :: "event list \<Rightarrow> save_request list" where
  "save_calls [] = []"
| "save_calls (Save sq # evs) = sq # save_calls evs"
| "save_calls (ev # evs) = save_calls evs"

text \<open>The exception that reached the caller, if the call has ended with one.\<close>

fun raised :: "state option \<Rightarrow> error option" where
  "raised None = None"
| "raised (Some s) = (case phase s of Returned (Inl e) \<Rightarrow> Some e | _ \<Rightarrow> None)"

subsection \<open>Measures and invariants of the transition system\<close>

text \<open>What is left to do: every step makes this number smaller.\<close>

definition remaining_work :: "state \<Rightarrow> nat" where
  "remaining_work s =
     4 * (total_pages s - next_page s) + 3 * length (pending s) + 2 * length (running s)
     + length (filter (\<lambda>(t, r). t \<notin> set (observed s)) (finished s))
     + (case phase s of In_body \<Rightarrow> 2 | Exiting r \<Rightarrow> 1 | Returned r \<Rightarrow> 0)"

text \<open>The executor's books: at most \<open>max_workers\<close> tasks run; the pages submitted so
  far are \<open>0, \<dots>, next_page - 1\<close>, and each of them is in exactly one of the queue,
  the running tasks and the finished futures; the exit from the \<^verbatim>\<open>with\<close> block and
  the return happen after the submission loop; only finished futures are yielded; at
  the return the queue is empty and nothing runs.\<close>

definition pool_inv :: "state \<Rightarrow> bool" where
  "pool_inv s \<longleftrightarrow>
     length (running s) \<le> max_workers
     \<and> mset (pending s @ running s @ map fst (finished s)) = mset [0..<next_page s]
     \<and> next_page s \<le> total_pages s
     \<and> submitted (trace s) = [0..<next_page s]
     \<and> (phase s \<noteq> In_body \<longrightarrow> next_page s = total_pages s)
     \<and> set (observed s) \<subseteq> fst ` set (finished s)
     \<and> (\<forall>r. phase s = Returned r \<longrightarrow> pending s = [] \<and> running s = [])"

text \<open>What the dispatcher has seen: while it collects, every future yielded so far has
  succeeded; an exception on its way out is the outcome of the future yielded last, and
  the futures yielded before it succeeded; a normal exit means that every page
  succeeded.\<close>

definition outcome_ok :: "state \<Rightarrow> error + unit \<Rightarrow> bool" where
  "outcome_ok s r =
     (case r of
        Inl e \<Rightarrow>
          observed s \<noteq> [] \<and> (last (observed s), Inl e) \<in> set (finished s)
          \<and> (\<forall>t\<in>set (butlast (observed s)). (t, Inr ()) \<in> set (finished s))
      | Inr u \<Rightarrow> (\<forall>t<total_pages s. (t, Inr ()) \<in> set (finished s)))"

definition outcome_inv :: "state \<Rightarrow> bool" where
  "outcome_inv s =
     (case phase s of
        In_body \<Rightarrow> (\<forall>t\<in>set (observed s). (t, Inr ()) \<in> set (finished s))
      | Exiting r \<Rightarrow> outcome_ok s r
      | Returned r \<Rightarrow> outcome_ok s r)"

text \<open>The page converter for page \<open>t\<close> gets as far as \<^verbatim>\<open>image.save\<close> when the
  renderer returns at least one image; the file for page \<open>t\<close> is in place when it
  holds the encoding of the first image.\<close>

definition calls_save :: "'img collaborators \<Rightarrow> bytes \<Rightarrow> int \<Rightarrow> nat \<Rightarrow> bool" where
  "calls_save env raw res t =
     (case convert_from_bytes env raw (render_args res t) of
        Inr (img # rest) \<Rightarrow> True
      | _ \<Rightarrow> False)"

definition page_written ::
  "'img collaborators \<Rightarrow> bytes \<Rightarrow> int \<Rightarrow> path \<Rightarrow> filesystem \<Rightarrow> nat \<Rightarrow> bool" where
  "page_written env raw res out fsys t =
     (case convert_from_bytes env raw (render_args res t) of
        Inr (img # rest) \<Rightarrow>
          (case encode env img ''TIFF'' (res, res) of
             Inr b \<Rightarrow> fsys (page_path out t) = Some (File b)
           | Inl e \<Rightarrow> False)
      | _ \<Rightarrow> False)"

text \<open>The files of the pages that succeeded are in place, and \<^verbatim>\<open>image.save\<close> has been
  called once for each finished page that got that far, in order of completion.\<close>

definition files_inv :: "'img collaborators \<Rightarrow> path \<Rightarrow> int \<Rightarrow> state \<Rightarrow> bool" where
  "files_inv env out res s \<longleftrightarrow>
     (\<forall>t. (t, Inr ()) \<in> set (finished s)
        \<longrightarrow> page_written env (raw_pdf_bytes s) res out (fs s) t)
     \<and> save_calls (trace s)
         = map (save_args res out)
             (filter (calls_save env (raw_pdf_bytes s) res) (map fst (finished s)))"


subsection \<open>A small test bed\<close>

text \<open>A two-page document, a renderer that returns the page number as the image and
  an encoder that keeps the image and both DPI values; a file system that holds the
  document only.\<close>

definition env_two :: "nat collaborators" where
  "env_two =
     \<lparr>pdf_page_count = (\<lambda>b. Inr 2),
      convert_from_bytes = (\<lambda>b rq. Inr [nat (first_page rq)]),
      encode = (\<lambda>img fmt d. Inr [img, nat (fst d), nat (snd d)])\<rparr>"

definition fs_doc :: filesystem where
  "fs_doc = [''doc.pdf'' \<mapsto> File [37, 80, 68, 70]]"

text \<open>The same with 21 pages, and with a renderer that fails on the first page.\<close>

definition env_many :: "nat collaborators" where
  "env_many = env_two\<lparr>pdf_page_count := (\<lambda>b. Inr 21)\<rparr>"

definition env_fail :: "nat collaborators" where
  "env_fail =
     env_two\<lparr>convert_from_bytes :=
       (\<lambda>b rq. if first_page rq = 1 then Inl (Error LibraryError ''page 1 cannot be rendered'')
                else Inr [nat (first_page rq)])\<rparr>"


section \<open>Properties\<close>

subsection \<open>Decimal digits and file names\<close>

lemma digit_char_numerals:
  "digit_char 0 = CHR ''0''" "digit_char 1 = CHR ''1''" "digit_char 2 = CHR ''2''"
  "digit_char 3 = CHR ''3''" "digit_char 4 = CHR ''4''" "digit_char 5 = CHR ''5''"
  "digit_char 6 = CHR ''6''" "digit_char 7 = CHR ''7''" "digit_char 8 = CHR ''8''"
  "digit_char 9 = CHR ''9''" "digit_char (Suc 0) = CHR ''1''"
  "digit_char (Suc (Suc 0)) = CHR ''2''" "digit_char (Suc (Suc (Suc 0))) = CHR ''3''"
  by code_simp+

lemma replicate_pads:
  "replicate 2 c = [c, c]" "replicate 3 c = [c, c, c]"
  by (simp_all add: numeral_2_eq_2 numeral_3_eq_3)

lemmas filename_eval = page_path_def path_join_def page_filename_def format_04_def dec.simps
  digit_char_numerals replicate_pads

lemmas convert_eval = convert_page_to_image_def render_args_def save_args_def save_def
  write_file_def saved_message_def

lemma digit_val_digit_char: "d < 10 \<Longrightarrow> digit_val (digit_char d) = d"
  by (simp add: digit_val_def digit_char_def)

lemma is_digit_digit_char: "d < 10 \<Longrightarrow> is_digit (digit_char d)"
  by (simp add: is_digit_def digit_char_def)

lemma decimal_value_snoc: "decimal_value (s @ [c]) = 10 * decimal_value s + digit_val c"
  by (simp add: decimal_value_def)

lemma decimal_value_dec: "decimal_value (dec n) = n"
proof (induction n rule: dec.induct)
  case (1 n)
  show ?case
  proof (cases "n < 10")
    case True
    then show ?thesis
      by (simp add: dec.simps [of n] decimal_value_def digit_val_digit_char)
  next
    case False
    then have "decimal_value (dec (n div 10)) = n div 10"
      using 1 by simp
    with False show ?thesis
      by (simp add: dec.simps [of n] decimal_value_snoc digit_val_digit_char)
  qed
qed

lemma digits_dec: "list_all is_digit (dec n)"
proof (induction n rule: dec.induct)
  case (1 n)
  then show ?case
    by (cases "n < 10") (simp_all add: dec.simps [of n] is_digit_digit_char)
qed

lemma dec_nonempty: "dec n \<noteq> []"
  by (subst dec.simps) simp

lemma hd_dec_nonzero: "0 < n \<Longrightarrow> hd (dec n) \<noteq> CHR ''0''"
proof (induction n rule: dec.induct)
  case (1 n)
  show ?case
  proof (cases "n < 10")
    case True
    have "digit_val (digit_char n) \<noteq> digit_val (CHR ''0'')"
      using True 1(2) by (simp add: digit_val_digit_char) (simp add: digit_val_def)
    then have "digit_char n \<noteq> CHR ''0''"
      by auto
    with True show ?thesis
      by (simp add: dec.simps [of n])
  next
    case False
    then have "hd (dec (n div 10)) \<noteq> CHR ''0''"
      using 1(1) by simp
    with False show ?thesis
      by (simp add: dec.simps [of n] dec_nonempty)
  qed
qed

lemma decimal_value_zeros: "decimal_value (replicate k (CHR ''0'') @ s) = decimal_value s"
  by (induction k) (simp_all add: decimal_value_def digit_val_def)

lemma decimal_value_format_04: "decimal_value (format_04 n) = n"
  by (simp add: format_04_def decimal_value_zeros decimal_value_dec)

lemma is_digit_zero: "is_digit (CHR ''0'')"
  by (simp add: is_digit_def)

lemma digits_format_04: "list_all is_digit (format_04 n)"
  using digits_dec [of n] by (auto simp add: format_04_def list_all_iff is_digit_zero)

lemma length_format_04: "length (format_04 n) = max 4 (length (dec n))"
  by (simp add: format_04_def)

lemma format_04_shape: "length (format_04 n) = 4 \<or> (format_04 n = dec n \<and> 4 < length (dec n))"
  by (cases "length (dec n) \<le> 4") (simp_all add: format_04_def)

lemma format_04_inj: "format_04 m = format_04 n \<Longrightarrow> m = n"
  by (metis decimal_value_format_04)

lemma page_filename_inj: "page_filename m = page_filename n \<Longrightarrow> m = n"
  using format_04_inj [of "m + 1" "n + 1"] by (simp add: page_filename_def)

lemma page_filename_no_slash: "page_filename n \<noteq> [] \<and> hd (page_filename n) \<noteq> CHR ''/''"
  by (simp add: page_filename_def)

lemma page_path_append:
  "page_path out n =
     (if out = [] \<or> last out = CHR ''/'' then out else out @ ''/'') @ page_filename n"
  using page_filename_no_slash [of n] by (simp add: page_path_def path_join_def)

lemma page_path_inj: "page_path out m = page_path out n \<Longrightarrow> m = n"
  by (auto simp add: page_path_append dest: page_filename_inj)

text \<open>
  \<^bold>\<open>C6.\<close> For every page index \<open>n\<close> the name of the output file is \<^verbatim>\<open>page_\<close>, then
  \<open>n + 1\<close> in decimal, then \<^verbatim>\<open>.tiff\<close>. The number is written in digits only, reads
  back as \<open>n + 1\<close> (nothing is cut off), has at least four characters, and has a leading
  zero only when it has exactly four characters, so that a number of five or more
  digits is written as it is. Index 0 gives \<^verbatim>\<open>page_0001.tiff\<close>.
\<close>

theorem page_filename_zero_padded:
  "(\<exists>ds. page_filename n = ''page_'' @ ds @ ''.tiff''
       \<and> list_all is_digit ds \<and> decimal_value ds = n + 1
       \<and> 4 \<le> length ds \<and> (length ds = 4 \<or> hd ds \<noteq> CHR ''0''))
   \<and> page_filename 0 = ''page_0001.tiff''"
proof -
  let ?ds = "format_04 (n + 1)"
  have "length ?ds = 4 \<or> hd ?ds \<noteq> CHR ''0''"
    using format_04_shape [of "n + 1"] hd_dec_nonzero [of "n + 1"] by auto
  moreover have "4 \<le> length ?ds"
    by (simp add: length_format_04)
  moreover have "page_filename n = ''page_'' @ ?ds @ ''.tiff''"
    by (simp add: page_filename_def)
  ultimately have "\<exists>ds. page_filename n = ''page_'' @ ds @ ''.tiff''
       \<and> list_all is_digit ds \<and> decimal_value ds = n + 1
       \<and> 4 \<le> length ds \<and> (length ds = 4 \<or> hd ds \<noteq> CHR ''0'')"
    using digits_format_04 [of "n + 1"] decimal_value_format_04 [of "n + 1"] by blast
  moreover have "page_filename 0 = ''page_0001.tiff''"
    by (simp add: filename_eval)
  ultimately show ?thesis
    by blast
qed

text \<open>Two instances: four digits with leading zeros, and five digits, which no
  padding or cutting touches.\<close>

theorem page_filename_zero_padded_witness:
  "page_filename 41 = ''page_0042.tiff'' \<and> hd ''0042'' = CHR ''0'' \<and> length ''0042'' = 4
   \<and> page_filename 9999 = ''page_10000.tiff''
   \<and> (\<exists>ds. page_filename 41 = ''page_'' @ ds @ ''.tiff''
         \<and> list_all is_digit ds \<and> decimal_value ds = 42
         \<and> 4 \<le> length ds \<and> (length ds = 4 \<or> hd ds \<noteq> CHR ''0''))"
  using page_filename_zero_padded [of 41] by (simp add: filename_eval)

subsection \<open>The page converter\<close>



subsection \<open>Failures before the thread pool\<close>

lemma step_Returned:
  "phase s = Returned r \<Longrightarrow> pending s = [] \<Longrightarrow> running s = []
    \<Longrightarrow> step env out res a s = None"
  by (cases a) auto

lemma run_Returned:
  "phase s = Returned r \<Longrightarrow> pending s = [] \<Longrightarrow> running s = []
    \<Longrightarrow> run env out res acts s = Some s' \<Longrightarrow> acts = [] \<and> s' = s"
  by (cases acts) (auto simp add: step_Returned)

text \<open>
  \<^bold>\<open>C4.\<close> For every resolution \<open>\<le> 0\<close> the call ends at once with the ValueError
  ``Resolution must be a positive integer'' (the invalid-argument error), before any
  I/O: no event has happened (no check or read of the input file, no directory
  creation, no task submitted), the file system is as it was, the executor holds no
  task, and no scheduler can make anything else happen.
\<close>

theorem nonpositive_resolution_rejected:
  assumes "resolution \<le> 0"
  shows "\<exists>s. extract_tiff_from_pdf env [] pdf_path out resolution fsys = Some s
     \<and> phase s = Returned (Inl (Error ValueError ''Resolution must be a positive integer''))
     \<and> trace s = [] \<and> fs s = fsys
     \<and> pending s = [] \<and> running s = [] \<and> finished s = []
     \<and> (\<forall>sched s'. extract_tiff_from_pdf env sched pdf_path out resolution fsys = Some s'
            \<longrightarrow> sched = [] \<and> s' = s)"
  using assms
  by (auto simp add: extract_tiff_from_pdf_def initial_state_def prologue_def
      dest!: run_Returned [rotated 3])

theorem nonpositive_resolution_rejected_witness:
  "(0::int) \<le> 0
   \<and> (\<exists>s. extract_tiff_from_pdf env_two [] ''doc.pdf'' ''out'' 0 fs_doc = Some s
     \<and> phase s = Returned (Inl (Error ValueError ''Resolution must be a positive integer''))
     \<and> trace s = [] \<and> fs s = fs_doc
     \<and> pending s = [] \<and> running s = [] \<and> finished s = []
     \<and> (\<forall>sched s'. extract_tiff_from_pdf env_two sched ''doc.pdf'' ''out'' 0 fs_doc = Some s'
            \<longrightarrow> sched = [] \<and> s' = s))"
  using nonpositive_resolution_rejected [where resolution = 0 and env = env_two
      and pdf_path = "''doc.pdf''" and out = "''out''" and fsys = fs_doc]
  by simp

text \<open>
  \<^bold>\<open>C5.\<close> The claim asks for a not-found error of a kind of its own. The code raises
  a ValueError for a missing input file (line 37), the class it also raises for a
  resolution that is not positive (line 33); the two differ in their message only. At
  the path \<^verbatim>\<open>missing.pdf\<close>, which the test file system does not hold, the error has
  class ValueError for resolution 300, and so has the error for resolution 0.
\<close>

theorem missing_file_error_class_not_distinct:
  "map_option class_of
     (raised (extract_tiff_from_pdf env_two [] ''missing.pdf'' ''out'' 300 fs_doc))
     = Some ValueError
   \<and> map_option class_of
     (raised (extract_tiff_from_pdf env_two [] ''missing.pdf'' ''out'' 0 fs_doc))
     = Some ValueError"
  by (simp add: extract_tiff_from_pdf_def initial_state_def prologue_def isfile_def
      fs_doc_def)

text \<open>
  \<^bold>\<open>C5, amended.\<close> For every input path that does not name an existing file, and every
  positive resolution, the call ends with the ValueError ``PDF file not found:'' followed
  by the path, before any byte of the document is read: the only event is the check
  that the path is a file, the file system is as it was, the executor holds no task,
  and no scheduler can make anything else happen.
\<close>

theorem missing_file_rejected:
  assumes "\<not> isfile fsys pdf_path" and "0 < resolution"
  shows "\<exists>s. extract_tiff_from_pdf env [] pdf_path out resolution fsys = Some s
     \<and> phase s = Returned (Inl (Error ValueError (''PDF file not found: '' @ pdf_path)))
     \<and> trace s = [Isfile pdf_path] \<and> fs s = fsys
     \<and> pending s = [] \<and> running s = [] \<and> finished s = []
     \<and> (\<forall>sched s'. extract_tiff_from_pdf env sched pdf_path out resolution fsys = Some s'
            \<longrightarrow> sched = [] \<and> s' = s)"
  using assms
  by (auto simp add: extract_tiff_from_pdf_def initial_state_def prologue_def
      dest!: run_Returned [rotated 3])

theorem missing_file_rejected_witness:
  "\<not> isfile fs_doc ''missing.pdf'' \<and> (0::int) < 300
   \<and> (\<exists>s. extract_tiff_from_pdf env_two [] ''missing.pdf'' ''out'' 300 fs_doc = Some s
     \<and> phase s = Returned (Inl (Error ValueError ''PDF file not found: missing.pdf''))
     \<and> trace s = [Isfile ''missing.pdf''] \<and> fs s = fs_doc
     \<and> pending s = [] \<and> running s = [] \<and> finished s = []
     \<and> (\<forall>sched s'.
           extract_tiff_from_pdf env_two sched ''missing.pdf'' ''out'' 300 fs_doc = Some s'
            \<longrightarrow> sched = [] \<and> s' = s))"
  using missing_file_rejected [where resolution = 300 and env = env_two
      and pdf_path = "''missing.pdf''" and out = "''out''" and fsys = fs_doc]
  by (simp add: isfile_def fs_doc_def)

subsection \<open>Runs of the transition system\<close>

lemma run_append:
  "run env out res (xs @ ys) s =
     (case run env out res xs s of None \<Rightarrow> None | Some s' \<Rightarrow> run env out res ys s')"
  by (induction xs arbitrary: s) (auto split: option.splits)

lemma run_invariant:
  assumes "run env out res acts s0 = Some s" and "I s0"
    and "\<And>a s s'. I s \<Longrightarrow> step env out res a s = Some s' \<Longrightarrow> I s'"
  shows "I s"
  using assms(1,2)
proof (induction acts arbitrary: s0)
  case Nil
  then show ?case by simp
next
  case (Cons a acts)
  then show ?case
    by (auto split: option.splits intro: assms(3))
qed

lemma submitted_append: "submitted (xs @ ys) = submitted xs @ submitted ys"
  by (induction xs rule: submitted.induct) auto

lemma save_calls_append: "save_calls (xs @ ys) = save_calls xs @ save_calls ys"
  by (induction xs rule: save_calls.induct) auto

lemma submitted_convert:
  "convert_page_to_image env raw res out t f = (r, f', evs) \<Longrightarrow> submitted evs = []"
  by (auto simp add: convert_page_to_image_def Let_def split: sum.splits list.splits)

lemma pool_inv_set:
  assumes "pool_inv s"
  shows "set (pending s) \<union> set (running s) \<union> fst ` set (finished s) = {0..<next_page s}"
proof -
  have "mset (pending s @ running s @ map fst (finished s)) = mset [0..<next_page s]"
    using assms by (simp add: pool_inv_def del: mset_upt)
  then have "set (pending s @ running s @ map fst (finished s)) = set [0..<next_page s]"
    by (rule mset_eq_setD)
  then show ?thesis
    by (simp add: Un_assoc)
qed

lemma pool_inv_distinct:
  assumes "pool_inv s"
  shows "distinct (pending s @ running s @ map fst (finished s))"
proof -
  have "mset (pending s @ running s @ map fst (finished s)) = mset [0..<next_page s]"
    using assms by (simp add: pool_inv_def del: mset_upt)
  then show ?thesis
    using distinct_upt mset_eq_imp_distinct_iff by blast
qed

lemma pool_inv_step:
  assumes "pool_inv s" and "step env out res a s = Some s'"
  shows "pool_inv s'"
proof (cases a)
  case Submit
  with assms show ?thesis
    by (auto simp add: pool_inv_def submitted_append simp del: mset_upt split: if_splits)
next
  case Start
  with assms show ?thesis
    by (auto simp add: pool_inv_def max_workers_def split: if_splits list.splits)
next
  case (Finish t)
  with assms have t: "t \<in> set (running s)"
    by (auto split: if_splits)
  then have "t \<in># mset [0..<next_page s]"
    using pool_inv_set [OF assms(1)] by auto
  with assms Finish show ?thesis
    by (auto simp add: pool_inv_def submitted_append submitted_convert length_remove1
        split: if_splits prod.splits simp del: mset_upt)
next
  case (Yield t)
  with assms show ?thesis
    by (auto simp add: pool_inv_def image_iff subset_iff
        split: if_splits option.splits sum.splits dest!: map_of_SomeD) force+
next
  case Leave_body
  with assms show ?thesis
    by (auto simp add: pool_inv_def split: if_splits)
next
  case Return
  with assms show ?thesis
    by (auto simp add: pool_inv_def split: if_splits phase.splits)
qed


lemma outcome_inv_step:
  assumes "outcome_inv s" and "pool_inv s" and "step env out res a s = Some s'"
  shows "outcome_inv s'"
proof (cases a)
  case Submit
  with assms show ?thesis
    by (auto simp add: outcome_inv_def split: if_splits)
next
  case Start
  with assms show ?thesis
    by (auto simp add: outcome_inv_def outcome_ok_def split: if_splits list.splits phase.splits sum.splits)
next
  case (Finish t)
  with assms show ?thesis
    by (auto simp add: outcome_inv_def outcome_ok_def split: if_splits prod.splits phase.splits sum.splits)
next
  case (Yield t)
  with assms show ?thesis
    by (auto simp add: outcome_inv_def outcome_ok_def
        split: if_splits option.splits sum.splits dest!: map_of_SomeD)
next
  case Leave_body
  with assms show ?thesis
    by (auto simp add: outcome_inv_def outcome_ok_def subset_iff split: if_splits)
next
  case Return
  with assms show ?thesis
    by (auto simp add: outcome_inv_def outcome_ok_def split: if_splits phase.splits sum.splits)
qed

lemma filter_length_less:
  assumes "x \<in> set xs" and "P x" and "\<not> Q x" and "\<And>y. Q y \<Longrightarrow> P y"
  shows "length (filter Q xs) < length (filter P xs)"
  using assms(1)
proof (induction xs)
  case Nil
  then show ?case by simp
next
  case (Cons y ys)
  have le: "length (filter Q ys) \<le> length (filter P ys)"
    by (induction ys) (auto simp add: assms(4))
  show ?case
  proof (cases "x = y")
    case True
    with le assms(2,3) show ?thesis by simp
  next
    case False
    with Cons have "length (filter Q ys) < length (filter P ys)" by simp
    then show ?thesis by (auto simp add: assms(4))
  qed
qed

lemma remaining_work_step:
  assumes "step env out res a s = Some s'"
  shows "remaining_work s' < remaining_work s"
proof (cases a)
  case Submit
  with assms show ?thesis
    by (auto simp add: remaining_work_def split: if_splits)
next
  case Start
  with assms show ?thesis
    by (auto simp add: remaining_work_def split: if_splits list.splits)
next
  case (Finish t)
  with assms have "t \<in> set (running s)"
    by (auto split: if_splits)
  then obtain k where "length (running s) = Suc k"
    by (cases "running s") auto
  with assms Finish show ?thesis
    by (auto simp add: remaining_work_def length_remove1 split: if_splits prod.splits)
next
  case (Yield t)
  with assms obtain r where r: "(t, r) \<in> set (finished s)" and t: "t \<notin> set (observed s)"
    by (auto split: if_splits option.splits dest!: map_of_SomeD)
  have "length (filter (\<lambda>(t', r). t' \<notin> set (observed s @ [t])) (finished s))
      < length (filter (\<lambda>(t', r). t' \<notin> set (observed s)) (finished s))"
    by (rule filter_length_less [OF r]) (use t in auto)
  with assms Yield show ?thesis
    by (auto simp add: remaining_work_def split: if_splits option.splits sum.splits)
next
  case Leave_body
  with assms show ?thesis
    by (auto simp add: remaining_work_def split: if_splits)
next
  case Return
  with assms show ?thesis
    by (auto simp add: remaining_work_def split: if_splits phase.splits)
qed

text \<open>A call that has not returned can always take a step.\<close>

lemma progress:
  assumes "pool_inv s" and "\<And>r. phase s \<noteq> Returned r"
  shows "\<exists>a s'. step env out res a s = Some s'"
proof (cases "running s")
  case (Cons t ts)
  then have "step env out res (Finish t) s \<noteq> None"
    by (auto split: prod.splits)
  then show ?thesis by blast
next
  case Nil
  note run = Nil
  show ?thesis
  proof (cases "pending s")
    case (Cons t ts)
    with run have "step env out res Start s \<noteq> None"
      by (simp add: max_workers_def)
    then show ?thesis by blast
  next
    case Nil
    note pend = Nil
    show ?thesis
    proof (cases "phase s")
      case In_body
      show ?thesis
      proof (cases "next_page s < total_pages s")
        case True
        with In_body have "step env out res Submit s \<noteq> None" by simp
        then show ?thesis by blast
      next
        case False
        then have np: "next_page s = total_pages s"
          using assms(1) by (simp add: pool_inv_def)
        have fin: "fst ` set (finished s) = {0..<total_pages s}"
          using pool_inv_set [OF assms(1)] run pend np by simp
        show ?thesis
        proof (cases "set [0..<total_pages s] \<subseteq> set (observed s)")
          case True
          with In_body np have "step env out res Leave_body s \<noteq> None" by simp
          then show ?thesis by blast
        next
          case False
          then obtain t where t: "t < total_pages s" "t \<notin> set (observed s)"
            by (auto simp add: subset_iff)
          then have "t \<in> fst ` set (finished s)"
            using fin by simp
          then have "map_of (finished s) t \<noteq> None"
            by (simp add: map_of_eq_None_iff)
          with In_body np t have "step env out res (Yield t) s \<noteq> None"
            by (auto split: option.splits sum.splits)
          then show ?thesis by blast
        qed
      qed
    next
      case (Exiting r)
      with run pend have "step env out res Return s \<noteq> None" by simp
      then show ?thesis by blast
    next
      case (Returned r)
      with assms(2) [of r] show ?thesis by simp
    qed
  qed
qed

text \<open>Hence every state can be run to the return of the call.\<close>

lemma completes:
  assumes "pool_inv s"
  shows "\<exists>acts s' r. run env out res acts s = Some s' \<and> phase s' = Returned r"
  using assms
proof (induction "remaining_work s" arbitrary: s rule: less_induct)
  case less
  show ?case
  proof (cases "\<exists>r. phase s = Returned r")
    case True
    then obtain r where "phase s = Returned r" by blast
    then have "run env out res [] s = Some s \<and> phase s = Returned r" by simp
    then show ?thesis by blast
  next
    case False
    then obtain a s1 where st: "step env out res a s = Some s1"
      using progress [OF less.prems] by blast
    then have "pool_inv s1" and "remaining_work s1 < remaining_work s"
      using less.prems pool_inv_step remaining_work_step by blast+
    then obtain acts s' r where "run env out res acts s1 = Some s'" "phase s' = Returned r"
      using less.hyps by blast
    with st have "run env out res (a # acts) s = Some s' \<and> phase s' = Returned r"
      by simp
    then show ?thesis by blast
  qed
qed

text \<open>No run is longer than the work that was left at its start: every scheduler
  comes to an end.\<close>

lemma run_length_bounded:
  "run env out res acts s = Some s' \<Longrightarrow> remaining_work s' + length acts \<le> remaining_work s"
proof (induction acts arbitrary: s)
  case Nil
  then show ?case by simp
next
  case (Cons a acts)
  then obtain s1 where "step env out res a s = Some s1" "run env out res acts s1 = Some s'"
    by (auto split: option.splits)
  then show ?case
    using Cons.IH [of s1] remaining_work_step [of env out res a s s1] by simp
qed


lemma convert_save_calls:
  "convert_page_to_image env raw res out t f = (r, f', evs) \<Longrightarrow>
     save_calls evs = (if calls_save env raw res t then [save_args res out t] else [])"
  by (auto simp add: convert_page_to_image_def calls_save_def Let_def
      split: sum.splits list.splits)

lemma convert_success:
  "convert_page_to_image env raw res out t f = (Inr (), f', evs) \<Longrightarrow>
     page_written env raw res out f' t \<and> calls_save env raw res t"
  by (auto simp add: convert_page_to_image_def calls_save_def page_written_def Let_def
      save_def save_args_def write_file_def
      split: sum.splits list.splits option.splits node.splits)

lemma convert_fs:
  "convert_page_to_image env raw res out t f = (r, f', evs) \<Longrightarrow>
     f' = f \<or> (\<exists>b. f (page_path out t) \<noteq> Some Dir \<and> f' = f(page_path out t \<mapsto> File b)
                  \<and> page_written env raw res out f' t)"
  by (auto simp add: convert_page_to_image_def page_written_def Let_def
      save_def save_args_def write_file_def
      split: sum.splits list.splits option.splits node.splits)

lemma page_written_cong:
  "page_written env raw res out f t \<Longrightarrow> f' (page_path out t) = f (page_path out t)
    \<Longrightarrow> page_written env raw res out f' t"
  by (auto simp add: page_written_def split: sum.splits list.splits)

lemma convert_keeps_written:
  assumes "convert_page_to_image env raw res out t f = (r, f', evs)"
    and "page_written env raw res out f t'"
  shows "page_written env raw res out f' t'"
proof -
  from convert_fs [OF assms(1)] show ?thesis
  proof
    assume "f' = f"
    with assms(2) show ?thesis by simp
  next
    assume "\<exists>b. f (page_path out t) \<noteq> Some Dir \<and> f' = f(page_path out t \<mapsto> File b)
                  \<and> page_written env raw res out f' t"
    then obtain b where f': "f' = f(page_path out t \<mapsto> File b)"
      and w: "page_written env raw res out f' t" by blast
    show ?thesis
    proof (cases "t' = t")
      case True
      with w show ?thesis by simp
    next
      case False
      then have "page_path out t' \<noteq> page_path out t"
        using page_path_inj by blast
      then have "f' (page_path out t') = f (page_path out t')"
        by (simp add: f')
      with assms(2) show ?thesis
        by (rule page_written_cong)
    qed
  qed
qed

text \<open>Converting a page whose file is in place writes the same bytes again.\<close>

lemma convert_rerun:
  assumes "page_written env raw res out f t"
  shows "\<exists>evs. convert_page_to_image env raw res out t f = (Inr (), f, evs)"
  using assms
  by (auto simp add: convert_page_to_image_def page_written_def Let_def
      save_def save_args_def write_file_def fun_upd_idem
      split: sum.splits list.splits option.splits node.splits)

lemma step_consts:
  "step env out res a s = Some s' \<Longrightarrow>
     total_pages s' = total_pages s \<and> raw_pdf_bytes s' = raw_pdf_bytes s"
  by (cases a) (auto split: if_splits list.splits prod.splits option.splits sum.splits phase.splits)

lemma files_inv_step:
  assumes "files_inv env out res s" and "step env out res a s = Some s'"
  shows "files_inv env out res s'"
proof (cases a)
  case Submit
  with assms show ?thesis
    by (auto simp add: files_inv_def save_calls_append split: if_splits)
next
  case Start
  with assms show ?thesis
    by (auto simp add: files_inv_def split: if_splits list.splits)
next
  case (Finish t)
  obtain r f' evs where c:
    "convert_page_to_image env (raw_pdf_bytes s) res out t (fs s) = (r, f', evs)"
    by (cases "convert_page_to_image env (raw_pdf_bytes s) res out t (fs s)") auto
  with assms(2) Finish have s': "s' = s\<lparr>running := remove1 t (running s),
      finished := finished s @ [(t, r)], fs := f', trace := trace s @ evs\<rparr>"
    by (auto split: if_splits)
  have "page_written env (raw_pdf_bytes s) res out f' t'"
    if "(t', Inr ()) \<in> set (finished s @ [(t, r)])" for t'
  proof (cases "(t', Inr ()) \<in> set (finished s)")
    case True
    then have "page_written env (raw_pdf_bytes s) res out (fs s) t'"
      using assms(1) by (simp add: files_inv_def)
    with c show ?thesis
      by (rule convert_keeps_written)
  next
    case False
    with that have "t' = t" "r = Inr ()" by auto
    with c show ?thesis
      using convert_success by blast
  qed
  moreover have "save_calls (trace s @ evs)
      = map (save_args res out)
          (filter (calls_save env (raw_pdf_bytes s) res) (map fst (finished s @ [(t, r)])))"
    using assms(1) convert_save_calls [OF c] by (simp add: files_inv_def save_calls_append)
  ultimately show ?thesis
    by (simp add: files_inv_def s')
next
  case (Yield t)
  with assms show ?thesis
    by (auto simp add: files_inv_def split: if_splits option.splits sum.splits)
next
  case Leave_body
  with assms show ?thesis
    by (auto simp add: files_inv_def split: if_splits)
next
  case Return
  with assms show ?thesis
    by (auto simp add: files_inv_def split: if_splits phase.splits)
qed

lemma prologue_trace:
  "prologue env pdf out res fsys = (r, f, tr) \<Longrightarrow> submitted tr = [] \<and> save_calls tr = []"
  by (auto simp add: prologue_def split: if_splits sum.splits)

lemma pool_inv_initial: "pool_inv (initial_state env pdf out res fsys)"
proof -
  obtain r f tr where p: "prologue env pdf out res fsys = (r, f, tr)"
    by (cases "prologue env pdf out res fsys") auto
  then show ?thesis
    using prologue_trace [OF p]
    by (auto simp add: initial_state_def pool_inv_def split: sum.splits)
qed

lemma files_inv_initial: "files_inv env out res (initial_state env pdf out res fsys)"
proof -
  obtain r f tr where p: "prologue env pdf out res fsys = (r, f, tr)"
    by (cases "prologue env pdf out res fsys") auto
  then show ?thesis
    using prologue_trace [OF p]
    by (auto simp add: initial_state_def files_inv_def split: sum.splits)
qed

lemma pool_inv_reached:
  "extract_tiff_from_pdf env sched pdf out res fsys = Some s \<Longrightarrow> pool_inv s"
  unfolding extract_tiff_from_pdf_def
  by (erule run_invariant [where I = pool_inv]) (auto intro: pool_inv_initial pool_inv_step)

lemma files_inv_reached:
  "extract_tiff_from_pdf env sched pdf out res fsys = Some s \<Longrightarrow> files_inv env out res s"
  unfolding extract_tiff_from_pdf_def
  by (erule run_invariant [where I = "files_inv env out res"])
     (auto intro: files_inv_initial files_inv_step)

lemma outcome_inv_reached:
  assumes "extract_tiff_from_pdf env sched pdf out res fsys = Some s"
    and "phase (initial_state env pdf out res fsys) = In_body"
  shows "outcome_inv s"
proof -
  have "pool_inv s \<and> outcome_inv s"
    using assms(1) unfolding extract_tiff_from_pdf_def
  proof (rule run_invariant [where I = "\<lambda>s. pool_inv s \<and> outcome_inv s"])
    have "observed (initial_state env pdf out res fsys) = []"
      by (auto simp add: initial_state_def split: prod.splits sum.splits)
    with assms(2) show "pool_inv (initial_state env pdf out res fsys)
        \<and> outcome_inv (initial_state env pdf out res fsys)"
      by (simp add: pool_inv_initial outcome_inv_def)
  next
    fix a s s'
    assume "pool_inv s \<and> outcome_inv s" "step env out res a s = Some s'"
    then show "pool_inv s' \<and> outcome_inv s'"
      using pool_inv_step outcome_inv_step by blast
  qed
  then show ?thesis by simp
qed

lemmas run_eval = extract_tiff_from_pdf_def initial_state_def prologue_def isfile_def
  read_file_def makedirs_def ancestors_def max_workers_def fs_doc_def env_two_def

lemma extract_completes:
  assumes "extract_tiff_from_pdf env sched pdf out res fsys = Some s"
  shows "\<exists>sched' s' r. extract_tiff_from_pdf env (sched @ sched') pdf out res fsys = Some s'
           \<and> phase s' = Returned r"
proof -
  obtain acts s' r where "run env out res acts s = Some s'" "phase s' = Returned r"
    using completes [OF pool_inv_reached [OF assms]] by blast
  with assms have "extract_tiff_from_pdf env (sched @ acts) pdf out res fsys = Some s'"
    by (simp add: extract_tiff_from_pdf_def run_append)
  with \<open>phase s' = Returned r\<close> show ?thesis by blast
qed

lemma pool_inv_submitted: "pool_inv s \<Longrightarrow> set (submitted (trace s)) = {0..<next_page s}"
  by (simp add: pool_inv_def)

subsection \<open>The worker pool\<close>

text \<open>
  \<^bold>\<open>C9.\<close> Whatever the page count and whatever the scheduler does, in every state the
  call can reach at most 20 page conversions are running; they are distinct tasks, and
  each of them was submitted to the executor, the only way for a task to run. With 21
  pages submitted, 20 tasks can be started and the 21st cannot.
\<close>

theorem at_most_twenty_running:
  assumes "extract_tiff_from_pdf env sched pdf out res fsys = Some s"
  shows "length (running s) \<le> 20 \<and> distinct (running s)
     \<and> set (running s) \<subseteq> set (submitted (trace s))"
proof -
  have inv: "pool_inv s"
    using assms by (rule pool_inv_reached)
  then have "length (running s) \<le> 20"
    by (simp add: pool_inv_def max_workers_def)
  moreover have "distinct (running s)"
    using pool_inv_distinct [OF inv] by simp
  moreover have "set (running s) \<subseteq> set (submitted (trace s))"
    using pool_inv_set [OF inv] pool_inv_submitted [OF inv] by auto
  ultimately show ?thesis by simp
qed

theorem at_most_twenty_running_witness:
  "(\<exists>s. extract_tiff_from_pdf env_many (replicate 21 Submit @ replicate 20 Start)
          ''doc.pdf'' ''out'' 300 fs_doc = Some s
        \<and> length (running s) = 20 \<and> pending s = [20]
        \<and> length (running s) \<le> 20 \<and> distinct (running s)
        \<and> set (running s) \<subseteq> set (submitted (trace s)))
   \<and> extract_tiff_from_pdf env_many (replicate 21 Submit @ replicate 21 Start)
          ''doc.pdf'' ''out'' 300 fs_doc = None"
proof -
  obtain s where h: "extract_tiff_from_pdf env_many (replicate 21 Submit @ replicate 20 Start)
          ''doc.pdf'' ''out'' 300 fs_doc = Some s"
    and r: "running s = [0..<20]" "pending s = [20]"
    by (simp add: run_eval env_many_def numeral_eq_Suc)
  have "extract_tiff_from_pdf env_many (replicate 21 Submit @ replicate 21 Start)
          ''doc.pdf'' ''out'' 300 fs_doc = None"
    by (simp add: run_eval env_many_def numeral_eq_Suc)
  with at_most_twenty_running [OF h] h r show ?thesis
    by simp
qed

text \<open>
  \<^bold>\<open>C3.\<close> In every state the call can reach: if the call has returned, normally or
  with an exception, then the queue is empty and no task is running, the finished
  futures are exactly the submitted tasks, one completion for each of the pages
  \<open>0, \<dots>, total_pages - 1\<close>, and no further step is possible, so nothing completes
  after the return. From every reachable state the call can be run to its return:
  neither a failed task nor an observed failure blocks the tasks that are still queued
  or running. In the witness the failure of page 1 is observed while page 2 still runs;
  the return has to wait for page 2, whose file is written.
\<close>

theorem returns_after_all_tasks:
  assumes "extract_tiff_from_pdf env sched pdf out res fsys = Some s"
  shows "(\<forall>r. phase s = Returned r \<longrightarrow>
            pending s = [] \<and> running s = []
            \<and> mset (map fst (finished s)) = mset (submitted (trace s))
            \<and> submitted (trace s) = [0..<total_pages s]
            \<and> (\<forall>a. step env out res a s = None))
       \<and> (\<exists>sched' s' r. extract_tiff_from_pdf env (sched @ sched') pdf out res fsys = Some s'
             \<and> phase s' = Returned r)"
proof -
  have inv: "pool_inv s"
    using assms by (rule pool_inv_reached)
  have "pending s = [] \<and> running s = []
            \<and> mset (map fst (finished s)) = mset (submitted (trace s))
            \<and> submitted (trace s) = [0..<total_pages s]
            \<and> (\<forall>a. step env out res a s = None)" if "phase s = Returned r" for r
  proof -
    from inv that have e: "pending s = []" "running s = []" "next_page s = total_pages s"
      by (simp_all add: pool_inv_def)
    moreover have "mset (map fst (finished s)) = mset (submitted (trace s))"
      using inv e by (simp add: pool_inv_def del: mset_upt)
    moreover have "submitted (trace s) = [0..<total_pages s]"
      using inv e by (simp add: pool_inv_def)
    moreover have "\<forall>a. step env out res a s = None"
      using that e step_Returned by blast
    ultimately show ?thesis by simp
  qed
  with extract_completes [OF assms] show ?thesis
    by blast
qed

theorem returns_after_all_tasks_witness:
  "(\<exists>s. extract_tiff_from_pdf env_fail
          [Submit, Submit, Start, Start, Finish 0, Yield 0, Finish 1, Return]
          ''doc.pdf'' ''out'' 300 fs_doc = Some s
        \<and> phase s = Returned (Inl (Error LibraryError ''page 1 cannot be rendered''))
        \<and> finished s = [(0, Inl (Error LibraryError ''page 1 cannot be rendered'')), (1, Inr ())]
        \<and> fs s ''out/page_0002.tiff'' = Some (File [2, 300, 300])
        \<and> pending s = [] \<and> running s = []
        \<and> mset (map fst (finished s)) = mset (submitted (trace s))
        \<and> submitted (trace s) = [0..<total_pages s])
   \<and> extract_tiff_from_pdf env_fail
          [Submit, Submit, Start, Start, Finish 0, Yield 0, Return]
          ''doc.pdf'' ''out'' 300 fs_doc = None"
proof -
  obtain s where h: "extract_tiff_from_pdf env_fail
          [Submit, Submit, Start, Start, Finish 0, Yield 0, Finish 1, Return]
          ''doc.pdf'' ''out'' 300 fs_doc = Some s"
    and r: "phase s = Returned (Inl (Error LibraryError ''page 1 cannot be rendered''))"
      "finished s = [(0, Inl (Error LibraryError ''page 1 cannot be rendered'')), (1, Inr ())]"
      "fs s ''out/page_0002.tiff'' = Some (File [2, 300, 300])"
    by (simp add: run_eval env_fail_def convert_eval filename_eval)
  have "extract_tiff_from_pdf env_fail
          [Submit, Submit, Start, Start, Finish 0, Yield 0, Return]
          ''doc.pdf'' ''out'' 300 fs_doc = None"
    by (simp add: run_eval env_fail_def convert_eval filename_eval)
  with returns_after_all_tasks [OF h] h r show ?thesis
    by simp
qed

text \<open>
  \<^bold>\<open>C2.\<close> Let the call get as far as the thread pool (the checks and preparations of
  lines 32 to 47 succeeded). If it has returned and one or more tasks failed, then it
  returned with an exception, namely the outcome of the future that \<^verbatim>\<open>as_completed\<close>
  yielded last, and every future yielded before that one had succeeded: it is the first
  failure observed. If it has returned and every task succeeded, it returned normally,
  with no value. From every reachable state the call can be run to its return.
\<close>

theorem first_observed_failure_surfaces:
  assumes "extract_tiff_from_pdf env sched pdf out res fsys = Some s"
    and "phase (initial_state env pdf out res fsys) = In_body"
  shows "(\<forall>r. phase s = Returned r \<longrightarrow>
            ((\<exists>t e. (t, Inl e) \<in> set (finished s)) \<longrightarrow>
               (\<exists>e. r = Inl e \<and> observed s \<noteq> []
                  \<and> (last (observed s), Inl e) \<in> set (finished s)
                  \<and> (\<forall>t\<in>set (butlast (observed s)). (t, Inr ()) \<in> set (finished s))))
            \<and> ((\<forall>t x. (t, x) \<in> set (finished s) \<longrightarrow> x = Inr ()) \<longrightarrow> r = Inr ()))
       \<and> (\<exists>sched' s' r. extract_tiff_from_pdf env (sched @ sched') pdf out res fsys = Some s'
             \<and> phase s' = Returned r)"
proof -
  have inv: "pool_inv s"
    using assms(1) by (rule pool_inv_reached)
  have oinv: "outcome_inv s"
    using assms by (rule outcome_inv_reached)
  have d: "distinct (map fst (finished s))"
    using pool_inv_distinct [OF inv] by simp
  have "((\<exists>t e. (t, Inl e) \<in> set (finished s)) \<longrightarrow>
               (\<exists>e. r = Inl e \<and> observed s \<noteq> []
                  \<and> (last (observed s), Inl e) \<in> set (finished s)
                  \<and> (\<forall>t\<in>set (butlast (observed s)). (t, Inr ()) \<in> set (finished s))))
            \<and> ((\<forall>t x. (t, x) \<in> set (finished s) \<longrightarrow> x = Inr ()) \<longrightarrow> r = Inr ())"
    if ret: "phase s = Returned r" for r
  proof (cases r)
    case (Inl e)
    with oinv ret have "observed s \<noteq> []" "(last (observed s), Inl e) \<in> set (finished s)"
      "\<forall>t\<in>set (butlast (observed s)). (t, Inr ()) \<in> set (finished s)"
      by (simp_all add: outcome_inv_def outcome_ok_def)
    with Inl show ?thesis by blast
  next
    case (Inr u)
    have all: "\<forall>t<total_pages s. (t, Inr ()) \<in> set (finished s)"
      using oinv ret Inr by (simp add: outcome_inv_def outcome_ok_def)
    have "False" if "(t, Inl e) \<in> set (finished s)" for t e
    proof -
      from that have "t \<in> fst ` set (finished s)" by force
      then have "t \<in> set (pending s) \<union> set (running s) \<union> fst ` set (finished s)"
        by simp
      then have "t \<in> {0..<next_page s}"
        by (simp only: pool_inv_set [OF inv])
      then have "t < next_page s"
        by simp
      moreover have "next_page s = total_pages s"
        using inv ret by (simp add: pool_inv_def)
      ultimately have "(t, Inr ()) \<in> set (finished s)"
        using all by simp
      with that d show False
        by (meson eq_key_imp_eq_value Inl_Inr_False)
    qed
    with Inr show ?thesis by auto
  qed
  with extract_completes [OF assms(1)] show ?thesis
    by blast
qed

theorem first_observed_failure_surfaces_witness:
  "phase (initial_state env_fail ''doc.pdf'' ''out'' 300 fs_doc) = In_body
   \<and> (\<exists>s. extract_tiff_from_pdf env_fail
          [Submit, Submit, Start, Start, Finish 1, Finish 0, Yield 1, Yield 0, Return]
          ''doc.pdf'' ''out'' 300 fs_doc = Some s
        \<and> phase s = Returned (Inl (Error LibraryError ''page 1 cannot be rendered''))
        \<and> finished s = [(1, Inr ()), (0, Inl (Error LibraryError ''page 1 cannot be rendered''))]
        \<and> observed s = [1, 0])
   \<and> (\<exists>s. extract_tiff_from_pdf env_two
          [Submit, Submit, Start, Start, Finish 1, Finish 0, Yield 1, Yield 0, Leave_body, Return]
          ''doc.pdf'' ''out'' 300 fs_doc = Some s
        \<and> phase s = Returned (Inr ())
        \<and> finished s = [(1, Inr ()), (0, Inr ())])"
proof -
  have i: "phase (initial_state env_fail ''doc.pdf'' ''out'' 300 fs_doc) = In_body"
    by (simp add: run_eval env_fail_def)
  have j: "phase (initial_state env_two ''doc.pdf'' ''out'' 300 fs_doc) = In_body"
    by (simp add: run_eval)
  obtain s where h: "extract_tiff_from_pdf env_fail
          [Submit, Submit, Start, Start, Finish 1, Finish 0, Yield 1, Yield 0, Return]
          ''doc.pdf'' ''out'' 300 fs_doc = Some s"
    and r: "phase s = Returned (Inl (Error LibraryError ''page 1 cannot be rendered''))"
      "finished s = [(1, Inr ()), (0, Inl (Error LibraryError ''page 1 cannot be rendered''))]"
      "observed s = [1, 0]"
    by (simp add: run_eval env_fail_def convert_eval filename_eval)
  obtain s2 where h2: "extract_tiff_from_pdf env_two
          [Submit, Submit, Start, Start, Finish 1, Finish 0, Yield 1, Yield 0, Leave_body, Return]
          ''doc.pdf'' ''out'' 300 fs_doc = Some s2"
    and r2: "phase s2 = Returned (Inr ())" "finished s2 = [(1, Inr ()), (0, Inr ())]"
    by (simp add: run_eval convert_eval filename_eval numeral_2_eq_2 atLeast0_lessThan_Suc)
  from first_observed_failure_surfaces [OF h i] first_observed_failure_surfaces [OF h2 j]
    i h r h2 r2 show ?thesis
    by simp
qed

subsection \<open>The prologue and successful runs\<close>

lemma mkdir_all_lookup:
  "mkdir_all qs f q = (if f q = None \<and> q \<in> set qs then Some Dir else f q)"
  by (induction qs arbitrary: f) (auto split: option.splits)

lemma makedirs_result:
  assumes "makedirs p e f = Inr f'"
  shows "f' p = Some Dir"
    and "f' q = Some (File b) \<longleftrightarrow> f q = Some (File b)"
    and "f q = Some Dir \<Longrightarrow> f' q = Some Dir"
  using assms
  by (auto simp add: makedirs_def mkdir_all_lookup split: option.splits node.splits if_splits)

lemma makedirs_existing: "f p = Some Dir \<Longrightarrow> makedirs p True f = Inr f"
  by (simp add: makedirs_def)

lemma prologue_success:
  assumes "prologue env pdf out res fsys = (Inr (n, raw), f, tr)"
  shows "0 < res" and "read_file fsys pdf = Inr raw" and "pdf_page_count env raw = Inr n"
    and "makedirs out True fsys = Inr f"
    and "tr = [Isfile pdf, Open_read pdf, Makedirs out True, Open_read pdf]"
proof -
  from assms have r: "0 < res" and i: "isfile fsys pdf"
    by (auto simp add: prologue_def split: if_splits)
  from i obtain c where c: "fsys pdf = Some (File c)"
    by (auto simp add: isfile_def split: option.splits node.splits)
  from assms r i c obtain m where m: "pdf_page_count env c = Inr m"
    by (auto simp add: prologue_def read_file_def split: sum.splits)
  from assms r i c m obtain g where g: "makedirs out True fsys = Inr g"
    by (auto simp add: prologue_def read_file_def split: sum.splits)
  have "g pdf = Some (File c)"
    using makedirs_result(2) [OF g] c by simp
  with assms r i c m g have "n = m \<and> raw = c \<and> f = g
      \<and> tr = [Isfile pdf, Open_read pdf, Makedirs out True, Open_read pdf]"
    by (auto simp add: prologue_def read_file_def)
  with r c m g show "0 < res" and "read_file fsys pdf = Inr raw"
    and "pdf_page_count env raw = Inr n" and "makedirs out True fsys = Inr f"
    and "tr = [Isfile pdf, Open_read pdf, Makedirs out True, Open_read pdf]"
    by (simp_all add: read_file_def)
qed

lemma prologue_intro:
  assumes "0 < res" and "read_file fsys pdf = Inr raw" and "pdf_page_count env raw = Inr n"
    and "makedirs out True fsys = Inr f"
  shows "prologue env pdf out res fsys
     = (Inr (n, raw), f, [Isfile pdf, Open_read pdf, Makedirs out True, Open_read pdf])"
proof -
  from assms(2) have c: "fsys pdf = Some (File raw)"
    by (auto simp add: read_file_def split: option.splits node.splits)
  then have "f pdf = Some (File raw)"
    using makedirs_result(2) [OF assms(4)] by simp
  with assms c show ?thesis
    by (simp add: prologue_def isfile_def read_file_def)
qed

lemma initial_state_failed:
  assumes "fst (prologue env pdf out res fsys) = Inl e"
    and "extract_tiff_from_pdf env sched pdf out res fsys = Some s"
  shows "sched = [] \<and> s = initial_state env pdf out res fsys \<and> phase s = Returned (Inl e)
     \<and> finished s = []"
proof -
  let ?s0 = "initial_state env pdf out res fsys"
  from assms(1) have "phase ?s0 = Returned (Inl e)" "pending ?s0 = []" "running ?s0 = []"
    "finished ?s0 = []"
    by (auto simp add: initial_state_def split: prod.splits sum.splits)
  with assms(2) show ?thesis
    using run_Returned [of ?s0 "Inl e" env out res sched s]
    by (simp add: extract_tiff_from_pdf_def)
qed

lemma initial_state_ok:
  assumes "prologue env pdf out res fsys = (Inr (n, raw), f, tr)"
  shows "initial_state env pdf out res fsys =
     \<lparr>fs = f, trace = tr, total_pages = n, raw_pdf_bytes = raw, next_page = 0,
      pending = [], running = [], finished = [], observed = [], phase = In_body\<rparr>"
  using assms by (simp add: initial_state_def)

lemma consts_reached:
  assumes "extract_tiff_from_pdf env sched pdf out res fsys = Some s"
  shows "total_pages s = total_pages (initial_state env pdf out res fsys)
     \<and> raw_pdf_bytes s = raw_pdf_bytes (initial_state env pdf out res fsys)"
  using assms unfolding extract_tiff_from_pdf_def
  by (rule run_invariant) (auto dest: step_consts)

lemma successful_return_facts:
  assumes "extract_tiff_from_pdf env sched pdf out res fsys = Some s"
    and "phase s = Returned (Inr ())"
  obtains n raw f tr where "prologue env pdf out res fsys = (Inr (n, raw), f, tr)"
    and "total_pages s = n" and "raw_pdf_bytes s = raw"
    and "mset (map fst (finished s)) = mset [0..<n]"
    and "\<forall>t x. (t, x) \<in> set (finished s) \<longrightarrow> x = Inr ()"
    and "\<forall>t<n. page_written env raw res out (fs s) t"
proof -
  obtain r f tr where p: "prologue env pdf out res fsys = (r, f, tr)"
    by (cases "prologue env pdf out res fsys") auto
  have "\<exists>n raw. r = Inr (n, raw)"
  proof (cases r)
    case (Inl e)
    with p assms show ?thesis
      using initial_state_failed [of env pdf out res fsys e sched s] by simp
  next
    case (Inr v)
    then show ?thesis by (cases v) auto
  qed
  then obtain n raw where r: "r = Inr (n, raw)" by blast
  note i = initial_state_ok [OF p [unfolded r]]
  have c: "total_pages s = n" "raw_pdf_bytes s = raw"
    using consts_reached [OF assms(1)] by (simp_all add: i)
  have inv: "pool_inv s"
    using assms(1) by (rule pool_inv_reached)
  have oinv: "outcome_inv s"
    using assms(1) by (rule outcome_inv_reached) (simp add: i)
  have finv: "files_inv env out res s"
    using assms(1) by (rule files_inv_reached)
  have e: "pending s = []" "running s = []" "next_page s = n"
    using inv assms(2) c by (simp_all add: pool_inv_def)
  have m: "mset (map fst (finished s)) = mset [0..<n]"
    using inv e by (simp add: pool_inv_def del: mset_upt)
  have all: "\<forall>t<n. (t, Inr ()) \<in> set (finished s)"
    using oinv assms(2) c by (simp add: outcome_inv_def outcome_ok_def)
  have d: "distinct (map fst (finished s))"
    using pool_inv_distinct [OF inv] by simp
  have ok: "x = Inr ()" if "(t, x) \<in> set (finished s)" for t x
  proof -
    from that have "t \<in> set (map fst (finished s))" by force
    then have "t \<in> set [0..<n]"
      using mset_eq_setD [OF m] by simp
    then have "(t, Inr ()) \<in> set (finished s)"
      using all by simp
    with that d show ?thesis
      by (meson eq_key_imp_eq_value)
  qed
  have w: "\<forall>t<n. page_written env raw res out (fs s) t"
    using finv all c by (simp add: files_inv_def)
  show thesis
    using that [OF p [unfolded r] c m _ w] ok by blast
qed

lemma page_written_isfile:
  "page_written env raw res out f t \<Longrightarrow> isfile f (page_path out t)"
  by (auto simp add: page_written_def isfile_def split: sum.splits list.splits)


text \<open>
  \<^bold>\<open>C1.\<close> Let the document at \<open>pdf\<close> be readable with \<open>P\<close> pages, and let a run of the
  call have returned normally (which needs a positive resolution). Then the tasks
  submitted are the page indices \<open>0, \<dots>, P - 1\<close>, each once and in this order;
  \<^verbatim>\<open>image.save\<close> was called \<open>P\<close> times, and the paths it was given are, up to order,
  the paths of \<^verbatim>\<open>page_0001.tiff\<close>, \<dots> for the indices \<open>0, \<dots>, P - 1\<close> in the output
  directory, without repetition; each of these paths holds a regular file afterwards;
  and distinct page indices have distinct paths.
\<close>

theorem successful_run_writes_every_page:
  assumes "extract_tiff_from_pdf env sched pdf out res fsys = Some s"
    and "phase s = Returned (Inr ())"
    and "read_file fsys pdf = Inr content" and "pdf_page_count env content = Inr P"
  shows "submitted (trace s) = [0..<P]
     \<and> mset (map image_path (save_calls (trace s)))
         = mset (map (\<lambda>n. path_join out (page_filename n)) [0..<P])
     \<and> length (save_calls (trace s)) = P
     \<and> distinct (map (\<lambda>n. path_join out (page_filename n)) [0..<P])
     \<and> (\<forall>n<P. isfile (fs s) (path_join out (page_filename n)))
     \<and> (\<forall>m n. m \<noteq> n \<longrightarrow>
           path_join out (page_filename m) \<noteq> path_join out (page_filename n))"
proof -
  from assms(1,2) obtain n raw f tr where p: "prologue env pdf out res fsys = (Inr (n, raw), f, tr)"
    and c: "total_pages s = n" "raw_pdf_bytes s = raw"
    and m: "mset (map fst (finished s)) = mset [0..<n]"
    and ok: "\<forall>t x. (t, x) \<in> set (finished s) \<longrightarrow> x = Inr ()"
    and w: "\<forall>t<n. page_written env raw res out (fs s) t"
    by (rule successful_return_facts)
  have "n = P"
    using prologue_success(2,3) [OF p] assms(3,4) by simp
  have inv: "pool_inv s"
    using assms(1) by (rule pool_inv_reached)
  have finv: "files_inv env out res s"
    using assms(1) by (rule files_inv_reached)
  have sub: "submitted (trace s) = [0..<P]"
    using inv assms(2) c \<open>n = P\<close> by (simp add: pool_inv_def)
  have inj: "path_join out (page_filename a) \<noteq> path_join out (page_filename b)"
    if "a \<noteq> b" for a b
    using that page_path_inj [of out a b] by (auto simp add: page_path_def)
  have "\<forall>t\<in>set (map fst (finished s)). calls_save env raw res t"
  proof
    fix t assume "t \<in> set (map fst (finished s))"
    then have "t \<in> set [0..<n]"
      using mset_eq_setD [OF m] by simp
    then have "page_written env raw res out (fs s) t"
      using w by simp
    then show "calls_save env raw res t"
      by (auto simp add: page_written_def calls_save_def split: sum.splits list.splits)
  qed
  then have "filter (calls_save env raw res) (map fst (finished s)) = map fst (finished s)"
    by (simp add: filter_id_conv)
  then have sc: "save_calls (trace s) = map (save_args res out) (map fst (finished s))"
    using finv c by (simp add: files_inv_def)
  have "map image_path (save_calls (trace s))
      = map (\<lambda>n. path_join out (page_filename n)) (map fst (finished s))"
    by (simp add: sc save_args_def page_path_def)
  then have "mset (map image_path (save_calls (trace s)))
      = image_mset (\<lambda>n. path_join out (page_filename n)) (mset (map fst (finished s)))"
    by (simp only: mset_map)
  also have "\<dots> = image_mset (\<lambda>n. path_join out (page_filename n)) (mset [0..<P])"
    using m \<open>n = P\<close> by (simp only:)
  also have "\<dots> = mset (map (\<lambda>n. path_join out (page_filename n)) [0..<P])"
    by (simp only: mset_map)
  finally have ms: "mset (map image_path (save_calls (trace s)))
         = mset (map (\<lambda>n. path_join out (page_filename n)) [0..<P])" .
  have len: "length (save_calls (trace s)) = P"
    using mset_eq_length [OF m] \<open>n = P\<close> by (simp add: sc)
  have dist: "distinct (map (\<lambda>n. path_join out (page_filename n)) [0..<P])"
    using inj by (auto simp add: distinct_map inj_on_def)
  have files: "\<forall>k<P. isfile (fs s) (path_join out (page_filename k))"
  proof (intro allI impI)
    fix k assume "k < P"
    then have "page_written env raw res out (fs s) k"
      using w \<open>n = P\<close> by simp
    then show "isfile (fs s) (path_join out (page_filename k))"
      using page_written_isfile [of env raw res out "fs s" k] by (simp add: page_path_def)
  qed
  from sub ms len dist files inj show ?thesis
    by blast
qed


theorem successful_run_writes_every_page_witness:
  "read_file fs_doc ''doc.pdf'' = Inr [37, 80, 68, 70]
   \<and> pdf_page_count env_two [37, 80, 68, 70] = Inr 2
   \<and> (\<exists>s. extract_tiff_from_pdf env_two
          [Submit, Submit, Start, Start, Finish 1, Finish 0, Yield 1, Yield 0, Leave_body, Return]
          ''doc.pdf'' ''out'' 300 fs_doc = Some s
        \<and> phase s = Returned (Inr ())
        \<and> submitted (trace s) = [0, 1]
        \<and> map image_path (save_calls (trace s)) = [''out/page_0002.tiff'', ''out/page_0001.tiff'']
        \<and> length (save_calls (trace s)) = 2
        \<and> fs s ''out/page_0001.tiff'' = Some (File [1, 300, 300])
        \<and> fs s ''out/page_0002.tiff'' = Some (File [2, 300, 300])
        \<and> (\<forall>n<2. isfile (fs s) (path_join ''out'' (page_filename n))))"
proof -
  have rd: "read_file fs_doc ''doc.pdf'' = Inr [37, 80, 68, 70]"
    by (simp add: read_file_def fs_doc_def)
  have pc: "pdf_page_count env_two [37, 80, 68, 70] = Inr 2"
    by (simp add: env_two_def)
  obtain s where h: "extract_tiff_from_pdf env_two
          [Submit, Submit, Start, Start, Finish 1, Finish 0, Yield 1, Yield 0, Leave_body, Return]
          ''doc.pdf'' ''out'' 300 fs_doc = Some s"
    and r: "phase s = Returned (Inr ())"
      "map image_path (save_calls (trace s)) = [''out/page_0002.tiff'', ''out/page_0001.tiff'']"
      "fs s ''out/page_0001.tiff'' = Some (File [1, 300, 300])"
      "fs s ''out/page_0002.tiff'' = Some (File [2, 300, 300])"
    by (simp add: run_eval convert_eval filename_eval numeral_2_eq_2 atLeast0_lessThan_Suc)
  from successful_run_writes_every_page [OF h r(1) rd pc] have
    "submitted (trace s) = [0, 1]" "length (save_calls (trace s)) = 2"
    "\<forall>n<2. isfile (fs s) (path_join ''out'' (page_filename n))"
    by (simp_all add: numeral_2_eq_2)
  with rd pc h r show ?thesis
    by simp
qed

subsection \<open>A document without pages\<close>




subsection \<open>Running the conversion again\<close>

lemma step_keeps_directories:
  assumes "step env out res a s = Some s'" and "fs s p = Some Dir"
  shows "fs s' p = Some Dir"
proof (cases a)
  case (Finish t)
  obtain r f' evs where c:
    "convert_page_to_image env (raw_pdf_bytes s) res out t (fs s) = (r, f', evs)"
    by (cases "convert_page_to_image env (raw_pdf_bytes s) res out t (fs s)") auto
  with assms(1) Finish have "fs s' = f'"
    by (auto split: if_splits)
  moreover have "f' p = Some Dir"
    using convert_fs [OF c] assms(2) by auto
  ultimately show ?thesis by simp
qed (use assms in \<open>auto split: if_splits list.splits option.splits sum.splits phase.splits\<close>)

lemma directories_reached:
  assumes "extract_tiff_from_pdf env sched pdf out res fsys = Some s"
    and "fs (initial_state env pdf out res fsys) p = Some Dir"
  shows "fs s p = Some Dir"
  using assms(1) unfolding extract_tiff_from_pdf_def
  by (rule run_invariant [where I = "\<lambda>s. fs s p = Some Dir"])
     (auto intro: assms(2) step_keeps_directories)

lemma rerun_step:
  assumes w: "\<forall>t<n. page_written env raw res out f t"
    and j: "fs s = f" "raw_pdf_bytes s = raw" "total_pages s = n" "pool_inv s"
      "\<forall>t x. (t, x) \<in> set (finished s) \<longrightarrow> x = Inr ()"
    and st: "step env out res a s = Some s'"
  shows "fs s' = f \<and> (\<forall>t x. (t, x) \<in> set (finished s') \<longrightarrow> x = Inr ())"
proof (cases a)
  case (Finish t)
  with st have t: "t \<in> set (running s)"
    by (auto split: if_splits)
  then have "t \<in> set (pending s) \<union> set (running s) \<union> fst ` set (finished s)"
    by simp
  then have "t \<in> {0..<next_page s}"
    by (simp only: pool_inv_set [OF j(4)])
  moreover have "next_page s \<le> n"
    using j(3,4) by (simp add: pool_inv_def)
  ultimately have "page_written env raw res out f t"
    using w by simp
  then obtain evs where "convert_page_to_image env raw res out t f = (Inr (), f, evs)"
    using convert_rerun by blast
  with st Finish t j show ?thesis
    by auto
qed (use st j in \<open>auto split: if_splits list.splits option.splits sum.splits phase.splits\<close>)

text \<open>
  \<^bold>\<open>C8.\<close> Creating the output directory is idempotent: \<^verbatim>\<open>os.makedirs\<close> with
  \<^verbatim>\<open>exist_ok=True\<close> returns without an error and without a change when the output
  path is a directory already, and it succeeds whenever neither the output path nor a
  directory above it is a regular file (the output path not being empty), whether or
  not the directories above it exist. Hence, after a run that returned normally and
  left the document as it was, the creation of the directory succeeds again and
  changes nothing; the conversion of the same document into the same directory can
  be run to a normal return again; and under every scheduler the second run fails in
  no task, raises no exception and leaves the file system as the first run left it:
  the files of the pages are written over with the same content.
\<close>

theorem rerun_is_idempotent:
  assumes "extract_tiff_from_pdf env sched1 pdf out res fsys = Some s1"
    and "phase s1 = Returned (Inr ())"
    and "fs s1 pdf = fsys pdf"
  shows "makedirs out True (fs s1) = Inr (fs s1)
     \<and> (\<forall>sched2 s2. extract_tiff_from_pdf env sched2 pdf out res (fs s1) = Some s2 \<longrightarrow>
           fs s2 = fs s1
           \<and> (\<forall>t x. (t, x) \<in> set (finished s2) \<longrightarrow> x = Inr ())
           \<and> (\<forall>r. phase s2 = Returned r \<longrightarrow> r = Inr ()))
     \<and> (\<exists>sched2 s2. extract_tiff_from_pdf env sched2 pdf out res (fs s1) = Some s2
           \<and> phase s2 = Returned (Inr ()))
     \<and> (\<forall>f. f out = Some Dir \<longrightarrow> makedirs out True f = Inr f)
     \<and> (\<forall>f. out \<noteq> [] \<and> \<not> isfile f out \<and> \<not> list_ex (isfile f) (ancestors out) \<longrightarrow>
           (\<exists>f'. makedirs out True f = Inr f' \<and> f' out = Some Dir))"
proof -
  from assms(1,2) obtain n raw f tr where p: "prologue env pdf out res fsys = (Inr (n, raw), f, tr)"
    and c: "total_pages s1 = n" "raw_pdf_bytes s1 = raw"
    and w: "\<forall>t<n. page_written env raw res out (fs s1) t"
    by (rule successful_return_facts)
  note ps = prologue_success [OF p]
  have "f out = Some Dir"
    using ps(4) by (rule makedirs_result(1))
  then have dir: "fs s1 out = Some Dir"
    using directories_reached [OF assms(1)] by (simp add: initial_state_ok [OF p])
  then have mk: "makedirs out True (fs s1) = Inr (fs s1)"
    by (rule makedirs_existing)
  have rd: "read_file (fs s1) pdf = Inr raw"
    using ps(2) assms(3) by (simp add: read_file_def)
  have p2: "prologue env pdf out res (fs s1)
      = (Inr (n, raw), fs s1, [Isfile pdf, Open_read pdf, Makedirs out True, Open_read pdf])"
    using ps(1) rd ps(3) mk by (rule prologue_intro)
  note i2 = initial_state_ok [OF p2]
  have second: "fs s2 = fs s1 \<and> (\<forall>t x. (t, x) \<in> set (finished s2) \<longrightarrow> x = Inr ())
      \<and> (\<forall>r. phase s2 = Returned r \<longrightarrow> r = Inr ())"
    if h2: "extract_tiff_from_pdf env sched2 pdf out res (fs s1) = Some s2" for sched2 s2
  proof -
    let ?I = "\<lambda>s. fs s = fs s1 \<and> raw_pdf_bytes s = raw \<and> total_pages s = n \<and> pool_inv s
        \<and> (\<forall>t x. (t, x) \<in> set (finished s) \<longrightarrow> x = Inr ())"
    have "?I s2"
      using h2 unfolding extract_tiff_from_pdf_def
    proof (rule run_invariant [where I = ?I])
      show "?I (initial_state env pdf out res (fs s1))"
        using pool_inv_initial [of env pdf out res "fs s1"] by (simp add: i2)
    next
      fix a s s'
      assume j: "?I s" and st: "step env out res a s = Some s'"
      then have "fs s' = fs s1 \<and> (\<forall>t x. (t, x) \<in> set (finished s') \<longrightarrow> x = Inr ())"
        using rerun_step [OF w _ _ _ _ _ st] by blast
      moreover have "raw_pdf_bytes s' = raw \<and> total_pages s' = n"
        using step_consts [OF st] j by simp
      moreover have "pool_inv s'"
        using j st pool_inv_step by blast
      ultimately show "?I s'" by simp
    qed
    then have ok: "\<forall>t x. (t, x) \<in> set (finished s2) \<longrightarrow> x = Inr ()" and f2: "fs s2 = fs s1"
      by simp_all
    have oinv: "outcome_inv s2"
      using h2 by (rule outcome_inv_reached) (simp add: i2)
    have "r = Inr ()" if "phase s2 = Returned r" for r
    proof (cases r)
      case (Inl e)
      with oinv that have "(last (observed s2), Inl e) \<in> set (finished s2)"
        by (simp add: outcome_inv_def outcome_ok_def)
      with ok show ?thesis by blast
    next
      case (Inr u)
      then show ?thesis by simp
    qed
    with ok f2 show ?thesis by blast
  qed
  have "extract_tiff_from_pdf env [] pdf out res (fs s1)
      = Some (initial_state env pdf out res (fs s1))"
    by (simp add: extract_tiff_from_pdf_def)
  from extract_completes [OF this] obtain sched2 s2 r where
    h2: "extract_tiff_from_pdf env sched2 pdf out res (fs s1) = Some s2"
    and "phase s2 = Returned r"
    by auto
  with second [OF h2] have third: "\<exists>sched2 s2.
      extract_tiff_from_pdf env sched2 pdf out res (fs s1) = Some s2
      \<and> phase s2 = Returned (Inr ())"
    by blast
  have fourth: "\<forall>f. f out = Some Dir \<longrightarrow> makedirs out True f = Inr f"
    by (simp add: makedirs_existing)
  have fifth: "\<exists>f'. makedirs out True g = Inr f' \<and> f' out = Some Dir"
    if "out \<noteq> []" "\<not> isfile g out" "\<not> list_ex (isfile g) (ancestors out)" for g
  proof -
    from that have "\<exists>f'. makedirs out True g = Inr f'"
      by (auto simp add: makedirs_def isfile_def split: option.splits node.splits)
    then show ?thesis
      using makedirs_result(1) by blast
  qed
  from mk second third fourth fifth show ?thesis
    by blast
qed

theorem rerun_is_idempotent_witness:
  "(\<exists>s1. extract_tiff_from_pdf env_two
          [Submit, Submit, Start, Start, Finish 1, Finish 0, Yield 1, Yield 0, Leave_body, Return]
          ''doc.pdf'' ''out'' 300 fs_doc = Some s1
        \<and> phase s1 = Returned (Inr ())
        \<and> fs s1 ''doc.pdf'' = fs_doc ''doc.pdf''
        \<and> fs s1 ''out'' = Some Dir
        \<and> fs s1 ''out/page_0001.tiff'' = Some (File [1, 300, 300])
        \<and> makedirs ''out'' True (fs s1) = Inr (fs s1)
        \<and> (\<exists>s2. extract_tiff_from_pdf env_two
              [Submit, Start, Finish 0, Submit, Start, Finish 1, Yield 0, Yield 1, Leave_body,
               Return]
              ''doc.pdf'' ''out'' 300 (fs s1) = Some s2
            \<and> phase s2 = Returned (Inr ()) \<and> fs s2 = fs s1))"
proof -
  obtain s1 where h: "extract_tiff_from_pdf env_two
          [Submit, Submit, Start, Start, Finish 1, Finish 0, Yield 1, Yield 0, Leave_body, Return]
          ''doc.pdf'' ''out'' 300 fs_doc = Some s1"
    and r: "phase s1 = Returned (Inr ())"
      "fs s1 = fs_doc(''out'' \<mapsto> Dir, ''out/page_0002.tiff'' \<mapsto> File [2, 300, 300],
         ''out/page_0001.tiff'' \<mapsto> File [1, 300, 300])"
    by (simp add: run_eval convert_eval filename_eval numeral_2_eq_2 atLeast0_lessThan_Suc)
  have same: "fs s1 ''doc.pdf'' = fs_doc ''doc.pdf''"
    by (simp add: r(2))
  obtain s2 where h2: "extract_tiff_from_pdf env_two
              [Submit, Start, Finish 0, Submit, Start, Finish 1, Yield 0, Yield 1, Leave_body,
               Return]
              ''doc.pdf'' ''out'' 300 (fs s1) = Some s2"
    and r2: "phase s2 = Returned (Inr ())"
    by (simp add: r(2) run_eval convert_eval filename_eval numeral_2_eq_2 atLeast0_lessThan_Suc)
  from rerun_is_idempotent [OF h r(1) same] h2 have
    "makedirs ''out'' True (fs s1) = Inr (fs s1)" "fs s2 = fs s1"
    by blast+
  moreover have "fs s1 ''out'' = Some Dir" "fs s1 ''out/page_0001.tiff'' = Some (File [1, 300, 300])"
    by (simp_all add: r(2))
  ultimately show ?thesis
    using h r(1) same h2 r2 by blast
qed

end
